theory Spec2Isabelle
  imports Main "HOL-Library.Sublist"
begin

section \<open>The graph model of \<^verbatim>\<open>src/extension.ts\<close>\<close>

text \<open>
  \<^verbatim>\<open>interface Node { id; imports; isExternal?; type: 'file' | 'folder' | 'dependency' }\<close>
  and \<^verbatim>\<open>interface Link { source; target }\<close>. The field \<^verbatim>\<open>id\<close> is called
  \<open>id_node\<close> here, since \<open>id\<close> is the identity function of HOL. \<^verbatim>\<open>isExternal\<close>
  is optional in the interface, but \<^verbatim>\<open>addNode\<close>, the only place that creates a
  node, always sets it, so it is a plain boolean.
\<close>

datatype node_type = File | Folder | Dependency

record node =
  id_node :: string
  "imports" :: "string list"
  isExternal :: bool
  type :: node_type

record link =
  source :: string
  target :: string

type_synonym path = "string list"

text \<open>
  The local variables of \<^verbatim>\<open>buildGraph\<close> that its closures \<^verbatim>\<open>addNode\<close> and
  \<^verbatim>\<open>traverseDirectory\<close> mutate. The array \<^verbatim>\<open>nodes\<close> and the map \<^verbatim>\<open>nodeMap\<close> hold
  references to the same node objects, and \<^verbatim>\<open>node.imports = imports\<close> writes through
  such a reference; so node objects live in an explicit store \<open>heap\<close> (the address of an
  object is its index), and \<open>nodes\<close> and \<open>nodeMap\<close> hold addresses.

  \<open>calls\<close> is a ghost field, absent from the source: the directories on which
  \<^verbatim>\<open>traverseDirectory\<close> has been entered, in order. No definition reads it.
\<close>

record state =
  heap :: "node list"
  nodes :: "nat list"
  nodeMap :: "string \<rightharpoonup> nat"
  links :: "link list"
  calls :: "path list"

definition init_state :: state where
  "init_state = \<lparr>heap = [], nodes = [], nodeMap = Map.empty, links = [], calls = []\<rparr>"

text \<open>
  \<^verbatim>\<open>
  function addNode(id, type, isExternal = false) {
      if (!nodeMap.has(id)) {
          const node = { id, imports: [], isExternal, type };
          nodeMap.set(id, node);
          nodes.push(node);
      }
      return nodeMap.get(id)!;
  }\<close>
  The result is the address of the returned node and the new state.
\<close>

definition addNode :: "string \<Rightarrow> node_type \<Rightarrow> bool \<Rightarrow> state \<Rightarrow> nat \<times> state" where
  "addNode i ty ext st =
     (let st' =
        (if nodeMap st i = None
         then (let a = length (heap st);
                   n = \<lparr>id_node = i, imports = [], isExternal = ext, type = ty\<rparr>
               in st\<lparr>heap := heap st @ [n],
                      nodeMap := (nodeMap st)(i \<mapsto> a),
                      nodes := nodes st @ [a]\<rparr>)
         else st)
      in (the (nodeMap st' i), st'))"

text \<open>\<^verbatim>\<open>node.imports = imports\<close>, for the node at address \<open>a\<close>.\<close>

definition set_imports :: "nat \<Rightarrow> string list \<Rightarrow> state \<Rightarrow> state" where
  "set_imports a imps st = st\<lparr>heap := (heap st)[a := (heap st ! a)\<lparr>imports := imps\<rparr>]\<rparr>"

text \<open>\<^verbatim>\<open>links.push({ source, target })\<close>.\<close>

definition push_link :: "string \<Rightarrow> string \<Rightarrow> state \<Rightarrow> state" where
  "push_link s t st = st\<lparr>links := links st @ [\<lparr>source = s, target = t\<rparr>]\<rparr>"

section \<open>The regular-expression import scanner of \<^verbatim>\<open>src/extension.ts\<close>\<close>

text \<open>
  \<^verbatim>\<open>const importRegex = /import\s+.*?from\s+['"](.+?)['"]/g;\<close>

  A source text is a \<open>string\<close> whose characters stand for the code units
  U+0000 to U+00FF. On these, \<^verbatim>\<open>\s\<close> matches tab, line feed, vertical tab, form
  feed, carriage return, space and no-break space, and \<^verbatim>\<open>.\<close> matches everything
  but line feed and carriage return.

  The expression is matched the way a backtracking engine does it: each piece takes
  the rest of the pattern as a continuation \<open>k\<close> on the remaining input; a greedy
  piece tries the longer match first, a lazy piece the shorter one.
\<close>

definition is_space :: "char \<Rightarrow> bool" where
  "is_space c = (of_char c \<in> {9, 10, 11, 12, 13, 32, 160 :: nat})"

definition is_line_terminator :: "char \<Rightarrow> bool" where
  "is_line_terminator c = (of_char c \<in> {10, 13 :: nat})"

definition is_quote :: "char \<Rightarrow> bool" where
  "is_quote c = (c = CHR 0x27 \<or> c = CHR 0x22)"

text \<open>A literal such as \<^verbatim>\<open>import\<close> or \<^verbatim>\<open>from\<close>.\<close>

fun lit :: "string \<Rightarrow> (string \<Rightarrow> 'a option) \<Rightarrow> string \<Rightarrow> 'a option" where
  "lit [] k s = k s"
| "lit (p # ps) k [] = None"
| "lit (p # ps) k (c # cs) = (if p = c then lit ps k cs else None)"

text \<open>\<^verbatim>\<open>\s+\<close>, greedy: one white-space character, then more of them if the rest matches so.\<close>

fun space_plus :: "(string \<Rightarrow> 'a option) \<Rightarrow> string \<Rightarrow> 'a option" where
  "space_plus k [] = None"
| "space_plus k (c # cs) =
     (if is_space c
      then (case space_plus k cs of Some r \<Rightarrow> Some r | None \<Rightarrow> k cs)
      else None)"

text \<open>\<^verbatim>\<open>.*?\<close>, lazy: the rest of the pattern first, one more character if that fails.\<close>

fun dot_star_lazy :: "(string \<Rightarrow> 'a option) \<Rightarrow> string \<Rightarrow> 'a option" where
  "dot_star_lazy k [] = k []"
| "dot_star_lazy k (c # cs) =
     (case k (c # cs) of
        Some r \<Rightarrow> Some r
      | None \<Rightarrow> if is_line_terminator c then None else dot_star_lazy k cs)"

text \<open>\<^verbatim>\<open>['"]\<close>.\<close>

fun quote :: "(string \<Rightarrow> 'a option) \<Rightarrow> string \<Rightarrow> 'a option" where
  "quote k [] = None"
| "quote k (c # cs) = (if is_quote c then k cs else None)"

text \<open>
  \<^verbatim>\<open>(.+?)\<close>, lazy and capturing: \<open>acc\<close> is the text captured so far, handed to the
  continuation with the remaining input.
\<close>

fun dot_plus_lazy :: "string \<Rightarrow> (string \<Rightarrow> string \<Rightarrow> 'a option) \<Rightarrow> string \<Rightarrow> 'a option" where
  "dot_plus_lazy acc k [] = None"
| "dot_plus_lazy acc k (c # cs) =
     (if is_line_terminator c then None
      else (case k (acc @ [c]) cs of
              Some r \<Rightarrow> Some r
            | None \<Rightarrow> dot_plus_lazy (acc @ [c]) k cs))"

text \<open>
  A match of the whole expression starting at the head of the input: the captured
  group 1 and the input left after the match.
\<close>

definition importRegex_at :: "string \<Rightarrow> (string \<times> string) option" where
  "importRegex_at =
     lit ''import'' (space_plus (dot_star_lazy (lit ''from'' (space_plus
       (quote (dot_plus_lazy [] (\<lambda>cap. quote (\<lambda>rest. Some (cap, rest)))))))))"

text \<open>
  \<^verbatim>\<open>importRegex.exec(content)\<close> on the input from \<^verbatim>\<open>lastIndex\<close> on: the first position
  at which the expression matches. The expression has no anchor and no look-behind, so
  the text before \<^verbatim>\<open>lastIndex\<close> plays no part.
\<close>

fun importRegex_exec :: "string \<Rightarrow> (string \<times> string) option" where
  "importRegex_exec [] = importRegex_at []"
| "importRegex_exec (c # cs) =
     (case importRegex_at (c # cs) of
        Some r \<Rightarrow> Some r
      | None \<Rightarrow> importRegex_exec cs)"

lemma lit_shorter:
  assumes k: "\<And>t c r. k t = Some (c, r) \<Longrightarrow> length r \<le> length t"
  shows "lit p k s = Some (c, r) \<Longrightarrow> length r + length p \<le> length s"
proof (induction p arbitrary: s)
  case Nil
  then have "k s = Some (c, r)" by simp
  from k [OF this] show ?case by simp
next
  case (Cons a p)
  show ?case
  proof (cases s)
    case Nil
    with Cons.prems show ?thesis by simp
  next
    case (Cons x xs)
    with Cons.prems have "lit p k xs = Some (c, r)"
      by (simp split: if_splits)
    from Cons.IH [OF this] Cons show ?thesis by simp
  qed
qed

lemma space_plus_shorter:
  assumes k: "\<And>t c r. k t = Some (c, r) \<Longrightarrow> length r \<le> length t"
  shows "space_plus k s = Some (c, r) \<Longrightarrow> length r \<le> length s"
proof (induction s)
  case Nil
  then show ?case by simp
next
  case (Cons a s)
  then have "space_plus k s = Some (c, r) \<or> k s = Some (c, r)"
    by (simp split: if_splits option.splits)
  then show ?case
  proof
    assume "space_plus k s = Some (c, r)"
    from Cons.IH [OF this] show ?thesis by simp
  next
    assume "k s = Some (c, r)"
    from k [OF this] show ?thesis by simp
  qed
qed

lemma dot_star_lazy_shorter:
  assumes k: "\<And>t c r. k t = Some (c, r) \<Longrightarrow> length r \<le> length t"
  shows "dot_star_lazy k s = Some (c, r) \<Longrightarrow> length r \<le> length s"
proof (induction s)
  case Nil
  then have "k [] = Some (c, r)" by simp
  from k [OF this] show ?case .
next
  case (Cons a s)
  then have "k (a # s) = Some (c, r) \<or> dot_star_lazy k s = Some (c, r)"
    by (simp split: if_splits option.splits)
  then show ?case
  proof
    assume "k (a # s) = Some (c, r)"
    from k [OF this] show ?thesis .
  next
    assume "dot_star_lazy k s = Some (c, r)"
    from Cons.IH [OF this] show ?thesis by simp
  qed
qed

lemma quote_shorter:
  assumes k: "\<And>t c r. k t = Some (c, r) \<Longrightarrow> length r \<le> length t"
  shows "quote k s = Some (c, r) \<Longrightarrow> length r \<le> length s"
proof (cases s)
  case Nil
  assume "quote k s = Some (c, r)"
  with Nil show ?thesis by simp
next
  case (Cons x xs)
  assume "quote k s = Some (c, r)"
  with Cons have "k xs = Some (c, r)" by (simp split: if_splits)
  from k [OF this] Cons show ?thesis by simp
qed

lemma dot_plus_lazy_shorter:
  assumes k: "\<And>a t c r. k a t = Some (c, r) \<Longrightarrow> length r \<le> length t"
  shows "dot_plus_lazy acc k s = Some (c, r) \<Longrightarrow> length r \<le> length s"
proof (induction s arbitrary: acc)
  case Nil
  then show ?case by simp
next
  case (Cons a s)
  then have "k (acc @ [a]) s = Some (c, r) \<or> dot_plus_lazy (acc @ [a]) k s = Some (c, r)"
    by (simp split: if_splits option.splits)
  then show ?case
  proof
    assume "k (acc @ [a]) s = Some (c, r)"
    from k [OF this] show ?thesis by simp
  next
    assume "dot_plus_lazy (acc @ [a]) k s = Some (c, r)"
    from Cons.IH [OF this] show ?thesis by simp
  qed
qed

lemma importRegex_at_shorter:
  assumes "importRegex_at s = Some (c, r)"
  shows "length r < length s"
proof -
  let ?tail = "\<lambda>cap. quote (\<lambda>rest. Some (cap, rest))"
  have tail: "length r \<le> length t" if "?tail a t = Some (c, r)" for a t c r
    using that by (rule quote_shorter [rotated]) simp
  have k1: "length r \<le> length t"
    if "quote (dot_plus_lazy [] ?tail) t = Some (c, r)" for t c r
    using that by (rule quote_shorter [rotated]) (rule dot_plus_lazy_shorter [OF tail])
  have sp: "length r \<le> length t"
    if "space_plus (quote (dot_plus_lazy [] ?tail)) t = Some (c, r)" for t c r
    using that by (rule space_plus_shorter [rotated]) (rule k1)
  have k2: "length r \<le> length t"
    if "lit ''from'' (space_plus (quote (dot_plus_lazy [] ?tail))) t = Some (c, r)" for t c r
  proof -
    from that have "length r + length ''from'' \<le> length t"
      by (rule lit_shorter [rotated]) (rule sp)
    then show ?thesis by simp
  qed
  have k3: "length r \<le> length t"
    if "space_plus (dot_star_lazy
      (lit ''from'' (space_plus (quote (dot_plus_lazy [] ?tail))))) t = Some (c, r)" for t c r
    using that by (rule space_plus_shorter [rotated]) (rule dot_star_lazy_shorter [OF k2])
  from assms have "length r + length ''import'' \<le> length s"
    unfolding importRegex_at_def by (rule lit_shorter [rotated]) (rule k3)
  then show ?thesis by simp
qed

lemma importRegex_exec_shorter:
  "importRegex_exec s = Some (c, r) \<Longrightarrow> length r < length s"
proof (induction s)
  case Nil
  then show ?case using importRegex_at_shorter [of "[]" c r] by simp
next
  case (Cons a s)
  then have "importRegex_at (a # s) = Some (c, r) \<or> importRegex_exec s = Some (c, r)"
    by (simp split: option.splits)
  then show ?case
  proof
    assume "importRegex_at (a # s) = Some (c, r)"
    then show ?thesis by (rule importRegex_at_shorter)
  next
    assume "importRegex_exec s = Some (c, r)"
    from Cons.IH [OF this] show ?thesis by simp
  qed
qed

text \<open>
  \<^verbatim>\<open>
  function parseImports(content) {
      const imports = [];
      let match;
      while ((match = importRegex.exec(content)) !== null) {
          imports.push(match[1]);
      }
      return imports;
  }\<close>
  The loop, with \<open>imps\<close> the array built so far and \<open>s\<close> the content from
  \<^verbatim>\<open>lastIndex\<close> on. Every match is at least six characters long, so the loop ends.
\<close>

function parseImports_loop :: "string list \<Rightarrow> string \<Rightarrow> string list" where
  "parseImports_loop imps s =
     (case importRegex_exec s of
        None \<Rightarrow> imps
      | Some (m, rest) \<Rightarrow> parseImports_loop (imps @ [m]) rest)"
  by pat_completeness auto
termination
  by (relation "measure (\<lambda>(imps, s). length s)") (auto dest: importRegex_exec_shorter)

definition parseImports :: "string \<Rightarrow> string list" where
  "parseImports content = parseImports_loop [] content"

section \<open>The environment of a build\<close>

text \<open>
  \<^verbatim>\<open>buildGraph\<close> reads the file system through Node's \<^verbatim>\<open>fs\<close> module, matches
  paths with the \<^verbatim>\<open>ignore\<close> package and parses the manifest with \<^verbatim>\<open>JSON.parse\<close>.
  None of them is code of this repository; they are the fields of the environment.

  A path is the list of its segments below the workspace root \<^verbatim>\<open>rootPath\<close>, so
  \<open>[]\<close> is \<^verbatim>\<open>rootPath\<close> itself and \<^verbatim>\<open>path.join(dir, file)\<close> is \<open>dir @ [file]\<close>.
  A call that throws returns \<open>None\<close>.
  \<^item> \<open>readdirSync\<close>: the names of the entries of a directory;
  \<^item> \<open>statSync\<close>: \<^verbatim>\<open>fs.statSync(p).isDirectory()\<close>; \<^verbatim>\<open>statSync\<close> follows symbolic
    links;
  \<^item> \<open>readFileSync\<close>: the text of a file;
  \<^item> \<open>existsSync\<close>;
  \<^item> \<open>ignores\<close>: \<^verbatim>\<open>ignore().add(patterns).ignores(relativePath)\<close>, for the text
    \<open>patterns\<close> of the ignore file;
  \<^item> \<open>JSON_parse\<close>: \<^verbatim>\<open>JSON.parse\<close>, \<open>None\<close> on a syntax error;
  \<^item> \<open>realpathSync\<close>: the canonical path of a path, with symbolic links resolved.
    The source never calls it; it is there to say which real directory a path names.
\<close>

datatype json =
  JNull | JBool bool | JNumber int | JString string | JArray "json list"
  | JObject "(string \<times> json) list"

record env =
  readdirSync :: "path \<Rightarrow> string list option"
  statSync :: "path \<Rightarrow> bool option"
  readFileSync :: "path \<Rightarrow> string option"
  existsSync :: "path \<Rightarrow> bool"
  ignores :: "string \<Rightarrow> string \<Rightarrow> bool"
  JSON_parse :: "string \<Rightarrow> json option"
  realpathSync :: "path \<Rightarrow> path"

datatype error =
  ReadFileError path | ReaddirError path | StatError path | SyntaxError | TypeError

text \<open>
  \<^verbatim>\<open>path.relative(rootPath, filePath)\<close> for a path below the root: its segments joined
  by the separator of POSIX paths.
\<close>

fun relative :: "path \<Rightarrow> string" where
  "relative [] = []"
| "relative [x] = x"
| "relative (x # y # ys) = x @ ''/'' @ relative (y # ys)"

text \<open>
  \<^verbatim>\<open>path.extname(file)\<close> for the name of a directory entry (no separator in it): the
  text from the last dot on; empty when there is no dot, when the last dot is the first
  character, and for the name \<^verbatim>\<open>..\<close>.
\<close>

definition extname :: "string \<Rightarrow> string" where
  "extname file =
     (let ext = takeWhile (\<lambda>c. c \<noteq> CHR ''.'') (rev file);
          startDot = length file - length ext - 1
      in if length ext = length file \<or> startDot = 0 \<or> file = ''..'' then []
         else drop startDot file)"

section \<open>\<^verbatim>\<open>traverseDirectory\<close> and \<^verbatim>\<open>buildGraph\<close> of \<^verbatim>\<open>src/extension.ts\<close>\<close>

text \<open>
  The body of the loop over the extracted imports:
  \<^verbatim>\<open>
  for (const imp of imports) {
      addNode(imp, 'dependency', true);
      links.push({ source: relativePath, target: imp });
  }\<close>
\<close>

definition add_import :: "string \<Rightarrow> string \<Rightarrow> state \<Rightarrow> state" where
  "add_import relativePath imp st =
     push_link relativePath imp (snd (addNode imp Dependency True st))"

text \<open>
  The branch of a source file, once its text has been read:
  \<^verbatim>\<open>
  const imports = parseImports(content);
  const node = addNode(relativePath, 'file');
  node.imports = imports;
  for (const imp of imports) { ... }\<close>
\<close>

definition add_file :: "string \<Rightarrow> string \<Rightarrow> state \<Rightarrow> state" where
  "add_file relativePath content st =
     (let imps = parseImports content;
          (a, st1) = addNode relativePath File False st;
          st2 = set_imports a imps st1
      in fold (add_import relativePath) imps st2)"

text \<open>
  \<^verbatim>\<open>
  function traverseDirectory(dir) {
      const files = fs.readdirSync(dir);
      for (const file of files) {
          const filePath = path.join(dir, file);
          const relativePath = path.relative(rootPath, filePath);
          if (ig.ignores(relativePath) || file === 'node_modules') { continue; }
          const stat = fs.statSync(filePath);
          if (stat.isDirectory()) {
              addNode(relativePath, 'folder');
              traverseDirectory(filePath);
          } else if (path.extname(file) === '.ts' || path.extname(file) === '.js') {
              const content = fs.readFileSync(filePath, 'utf8');
              ...
          }
      }
  }\<close>
  The recursion follows the file system, which need not be a finite tree (a symbolic
  link may lead back to a directory above it), so it takes fuel: \<open>traverseDirectory n\<close>
  may nest \<open>n\<close> calls, and \<open>None\<close> says that this was not enough. \<open>Some (Inl e)\<close> is
  an exception thrown by a call of \<^verbatim>\<open>fs\<close>, which nothing in the source catches.
  \<open>patterns\<close> is the text given to \<^verbatim>\<open>ignore().add\<close>; \<open>for_files\<close> is the loop over
  the entries still to be seen.
\<close>

fun traverseDirectory :: "nat \<Rightarrow> env \<Rightarrow> string \<Rightarrow> path \<Rightarrow> state \<Rightarrow> (error + state) option"
  and for_files :: "nat \<Rightarrow> env \<Rightarrow> string \<Rightarrow> path \<Rightarrow> string list \<Rightarrow> state \<Rightarrow> (error + state) option"
  where
  "traverseDirectory 0 e patterns dir st = None"
| "traverseDirectory (Suc n) e patterns dir st =
     (case readdirSync e dir of
        None \<Rightarrow> Some (Inl (ReaddirError dir))
      | Some files \<Rightarrow> for_files n e patterns dir files (st\<lparr>calls := calls st @ [dir]\<rparr>))"
| "for_files n e patterns dir [] st = Some (Inr st)"
| "for_files n e patterns dir (file # files) st =
     (let filePath = dir @ [file];
          relativePath = relative filePath
      in if ignores e patterns relativePath \<or> file = ''node_modules''
         then for_files n e patterns dir files st
         else (case statSync e filePath of
                 None \<Rightarrow> Some (Inl (StatError filePath))
               | Some isDirectory \<Rightarrow>
                   if isDirectory
                   then (case traverseDirectory n e patterns filePath
                                (snd (addNode relativePath Folder False st)) of
                           None \<Rightarrow> None
                         | Some (Inl err) \<Rightarrow> Some (Inl err)
                         | Some (Inr st') \<Rightarrow> for_files n e patterns dir files st')
                   else if extname file = ''.ts'' \<or> extname file = ''.js''
                   then (case readFileSync e filePath of
                           None \<Rightarrow> Some (Inl (ReadFileError filePath))
                         | Some content \<Rightarrow>
                             for_files n e patterns dir files (add_file relativePath content st))
                   else for_files n e patterns dir files st))"

text \<open>
  The manifest step. A parsed JSON value is a \<open>json\<close>; the entries of a \<open>JObject\<close>
  are its properties in the order in which JavaScript enumerates them, each key once.
  \<^item> \<open>get_dependencies\<close> is \<^verbatim>\<open>packageJson.dependencies\<close>: a type error on \<^verbatim>\<open>null\<close>,
    \<open>None\<close> (\<^verbatim>\<open>undefined\<close>) where the value has no such property;
  \<^item> \<open>truthy\<close> is the test of \<^verbatim>\<open>||\<close>;
  \<^item> \<open>Object_keys\<close> is \<^verbatim>\<open>Object.keys\<close>: the keys of an object, the indices of an
    array or of a string, nothing for the other values.
\<close>

fun get_dependencies :: "json \<Rightarrow> error + json option" where
  "get_dependencies JNull = Inl TypeError"
| "get_dependencies (JObject kvs) = Inr (map_of kvs ''dependencies'')"
| "get_dependencies v = Inr None"

fun truthy :: "json \<Rightarrow> bool" where
  "truthy JNull = False"
| "truthy (JBool b) = b"
| "truthy (JNumber n) = (n \<noteq> 0)"
| "truthy (JString s) = (s \<noteq> [])"
| "truthy v = True"

fun to_string :: "nat \<Rightarrow> string" where
  "to_string n =
     (if n < 10 then [char_of (48 + n)]
      else to_string (n div 10) @ [char_of (48 + n mod 10)])"

fun Object_keys :: "json \<Rightarrow> string list" where
  "Object_keys (JObject kvs) = map fst kvs"
| "Object_keys (JArray xs) = map to_string [0..<length xs]"
| "Object_keys (JString s) = map to_string [0..<length s]"
| "Object_keys v = []"

text \<open>
  \<^verbatim>\<open>
  const packageJsonPath = path.join(rootPath, 'package.json');
  if (fs.existsSync(packageJsonPath)) {
      const packageJson = JSON.parse(fs.readFileSync(packageJsonPath, 'utf8'));
      const dependencies = Object.keys(packageJson.dependencies || {});
      dependencies.forEach(dep => { addNode(dep, 'dependency', true); });
  }\<close>
\<close>

definition add_dependencies :: "env \<Rightarrow> state \<Rightarrow> error + state" where
  "add_dependencies e st =
     (if existsSync e [''package.json'']
      then (case readFileSync e [''package.json''] of
              None \<Rightarrow> Inl (ReadFileError [''package.json''])
            | Some text \<Rightarrow>
                (case JSON_parse e text of
                   None \<Rightarrow> Inl SyntaxError
                 | Some packageJson \<Rightarrow>
                     (case get_dependencies packageJson of
                        Inl err \<Rightarrow> Inl err
                      | Inr d \<Rightarrow>
                          (let dependencies = Object_keys
                                 (case d of
                                    None \<Rightarrow> JObject []
                                  | Some v \<Rightarrow> if truthy v then v else JObject [])
                           in Inr (fold (\<lambda>dep s. snd (addNode dep Dependency True s))
                                     dependencies st)))))
      else Inr st)"

text \<open>
  \<^verbatim>\<open>
  const connectedNodes = new Set(links.flatMap(link => [link.source, link.target]));
  return { nodes: nodes.filter(node => connectedNodes.has(node.id)), links };\<close>
\<close>

definition remove_orphans :: "state \<Rightarrow> node list \<times> link list" where
  "remove_orphans st =
     (let connectedNodes = set (concat (map (\<lambda>l. [source l, target l]) (links st)))
      in (filter (\<lambda>node. id_node node \<in> connectedNodes) (map (\<lambda>a. heap st ! a) (nodes st)),
          links st))"

text \<open>
  The state of \<^verbatim>\<open>buildGraph\<close> before its last step: the ignore file is read (with no
  test that it exists), the tree is traversed from the root, and the dependencies of
  the manifest are added.
\<close>

definition build_state :: "nat \<Rightarrow> env \<Rightarrow> (error + state) option" where
  "build_state n e =
     (case readFileSync e [''.gitignore''] of
        None \<Rightarrow> Some (Inl (ReadFileError [''.gitignore'']))
      | Some patterns \<Rightarrow>
          (case traverseDirectory n e patterns [] init_state of
             None \<Rightarrow> None
           | Some (Inl err) \<Rightarrow> Some (Inl err)
           | Some (Inr st) \<Rightarrow> Some (add_dependencies e st)))"

text \<open>
  \<^verbatim>\<open>buildGraph\<close>. Its argument is the root folder of the workspace as an environment,
  \<open>None\<close> when \<^verbatim>\<open>vscode.workspace.workspaceFolders\<close> is undefined; then the result is
  the empty graph. The result is the pair of \<^verbatim>\<open>nodes\<close> and \<^verbatim>\<open>links\<close>.
\<close>

fun buildGraph :: "nat \<Rightarrow> env option \<Rightarrow> (error + node list \<times> link list) option" where
  "buildGraph n None = Some (Inr ([], []))"
| "buildGraph n (Some e) =
     (case build_state n e of
        None \<Rightarrow> None
      | Some (Inl err) \<Rightarrow> Some (Inl err)
      | Some (Inr st) \<Rightarrow> Some (Inr (remove_orphans st)))"

section \<open>Predicates on states and environments\<close>

text \<open>
  The store, the array and the map agree: the array lists every object of the store
  once, in the order of creation; the map sends an id to the object that carries it,
  and every object is found under its id.
\<close>

definition heap_inv :: "state \<Rightarrow> bool" where
  "heap_inv st \<longleftrightarrow>
     nodes st = [0..<length (heap st)] \<and>
     (\<forall>i a. nodeMap st i = Some a \<longrightarrow> a < length (heap st) \<and> id_node (heap st ! a) = i) \<and>
     (\<forall>a<length (heap st). nodeMap st (id_node (heap st ! a)) = Some a)"

text \<open>Both ends of every link are registered ids.\<close>

definition links_inv :: "state \<Rightarrow> bool" where
  "links_inv st \<longleftrightarrow>
     (\<forall>l\<in>set (links st). source l \<in> dom (nodeMap st) \<and> target l \<in> dom (nodeMap st))"

text \<open>\<^verbatim>\<open>isExternal\<close> is set on the dependency nodes and on no other node.\<close>

definition kind_inv :: "state \<Rightarrow> bool" where
  "kind_inv st \<longleftrightarrow> (\<forall>n\<in>set (heap st). isExternal n \<longleftrightarrow> type n = Dependency)"

text \<open>The number of links from \<open>s\<close> to \<open>t\<close> in a list of links.\<close>

definition edges :: "string \<Rightarrow> string \<Rightarrow> link list \<Rightarrow> nat" where
  "edges s t ls = length (filter (\<lambda>l. source l = s \<and> target l = t) ls)"

text \<open>
  Every import carried by a node is a link from that node: a specifier that occurs
  \<open>k\<close> times in \<^verbatim>\<open>node.imports\<close> is the target of at least \<open>k\<close> links from \<^verbatim>\<open>node.id\<close>.
\<close>

definition imports_inv :: "state \<Rightarrow> bool" where
  "imports_inv st \<longleftrightarrow>
     (\<forall>n\<in>set (heap st). \<forall>s. count_list (imports n) s \<le> edges (id_node n) s (links st))"

definition graph_inv :: "state \<Rightarrow> bool" where
  "graph_inv st \<longleftrightarrow> heap_inv st \<and> links_inv st \<and> kind_inv st \<and> imports_inv st"

text \<open>The ids that occur in a list of links, as a source or as a target.\<close>

definition connected :: "link list \<Rightarrow> string set" where
  "connected ls = set (concat (map (\<lambda>l. [source l, target l]) ls))"

text \<open>
  No directory lies deeper than \<open>d\<close> segments below the root: no entry of a path of
  length \<open>d\<close> is a directory.
\<close>

definition no_directory_below :: "env \<Rightarrow> nat \<Rightarrow> bool" where
  "no_directory_below e d \<longleftrightarrow> (\<forall>p f. length p = d \<longrightarrow> statSync e (p @ [f]) \<noteq> Some True)"

text \<open>No listing of a directory holds a name twice.\<close>

definition distinct_listings :: "env \<Rightarrow> bool" where
  "distinct_listings e \<longleftrightarrow> (\<forall>p fs. readdirSync e p = Some fs \<longrightarrow> distinct fs)"

text \<open>
  What a completed call of \<open>traverseDirectory\<close> on \<open>dir\<close> adds to the trace: no
  directory twice, each of them \<open>dir\<close> or below it, and each but \<open>dir\<close> a directory
  according to \<open>statSync\<close>.
\<close>

definition adds_below :: "env \<Rightarrow> path \<Rightarrow> state \<Rightarrow> state \<Rightarrow> bool" where
  "adds_below e dir st st' \<longleftrightarrow>
     (\<exists>cs. calls st' = calls st @ cs \<and> distinct cs \<and>
        (\<forall>c\<in>set cs. prefix dir c) \<and>
        (\<forall>c\<in>set cs. c = dir \<or> statSync e c = Some True))"

text \<open>The same for the loop over the entries \<open>F\<close> of \<open>dir\<close>.\<close>

definition adds_under :: "env \<Rightarrow> path \<Rightarrow> string set \<Rightarrow> state \<Rightarrow> state \<Rightarrow> bool" where
  "adds_under e dir F st st' \<longleftrightarrow>
     (\<exists>cs. calls st' = calls st @ cs \<and> distinct cs \<and>
        (\<forall>c\<in>set cs. \<exists>f\<in>F. prefix (dir @ [f]) c) \<and>
        (\<forall>c\<in>set cs. statSync e c = Some True))"

text \<open>
  The real directories on which \<^verbatim>\<open>traverseDirectory\<close> was entered, in order, for the
  result \<open>r\<close> of a traversal that has completed.
\<close>

definition real_directories :: "env \<Rightarrow> (error + state) option \<Rightarrow> path list" where
  "real_directories e r =
     (case r of Some (Inr st) \<Rightarrow> map (realpathSync e) (calls st) | _ \<Rightarrow> [])"

text \<open>
  What follows describes a traversal in terms of the file system alone.
  \<open>listed\<close>: the entry \<open>f\<close> is in the listing of \<open>dir\<close> and the loop of
  \<^verbatim>\<open>traverseDirectory\<close> does not skip it.
\<close>

definition listed :: "env \<Rightarrow> string \<Rightarrow> path \<Rightarrow> string \<Rightarrow> bool" where
  "listed e patterns dir f \<longleftrightarrow>
     (case readdirSync e dir of None \<Rightarrow> False | Some files \<Rightarrow> f \<in> set files) \<and>
     \<not> (ignores e patterns (relative (dir @ [f])) \<or> f = ''node_modules'')"

text \<open>
  \<open>entered\<close>: the directory is the root, or a listed entry of an entered directory
  that \<^verbatim>\<open>statSync\<close> reports as a directory. \<open>entered_rev\<close> takes the path with its last
  segment first.
\<close>

fun entered_rev :: "env \<Rightarrow> string \<Rightarrow> string list \<Rightarrow> bool" where
  "entered_rev e patterns [] = True"
| "entered_rev e patterns (f # up) =
     (entered_rev e patterns up \<and> listed e patterns (rev up) f \<and>
      statSync e (rev up @ [f]) = Some True)"


text \<open>
  \<open>source_file\<close>: a listed entry of an entered directory that is no directory, has
  the extension \<^verbatim>\<open>.ts\<close> or \<^verbatim>\<open>.js\<close>, and whose text is \<open>content\<close>: a traversed
  source file.
\<close>

definition source_file :: "env \<Rightarrow> string \<Rightarrow> path \<Rightarrow> string \<Rightarrow> bool" where
  "source_file e patterns p content \<longleftrightarrow>
     (case rev p of
        [] \<Rightarrow> False
      | f # up \<Rightarrow>
          entered_rev e patterns up \<and> listed e patterns (rev up) f \<and>
          statSync e p = Some False \<and>
          (extname f = ''.ts'' \<or> extname f = ''.js'') \<and>
          readFileSync e p = Some content)"





section \<open>Example projects\<close>

text \<open>
  Each project is an environment: what the calls of \<^verbatim>\<open>fs\<close> return on its paths.
  \<open>no_patterns\<close> is the matcher of an empty ignore file.
\<close>

definition no_patterns :: "string \<Rightarrow> string \<Rightarrow> bool" where
  "no_patterns patterns relativePath = False"

text \<open>
  A file that imports \<^verbatim>\<open>./util\<close> in two statements, next to a file without imports.
\<close>

definition project_util :: env where
  "project_util =
     \<lparr>readdirSync = (\<lambda>p. if p = [] then Some [''.gitignore'', ''main.ts'', ''util.ts''] else None),
      statSync = (\<lambda>p. Some False),
      readFileSync = (\<lambda>p.
        if p = [''.gitignore''] then Some []
        else if p = [''main.ts''] then Some ''import a from './util'; import b from './util';''
        else if p = [''util.ts''] then Some ''export const x = 1;''
        else None),
      existsSync = (\<lambda>p. p \<in> {[], [''.gitignore''], [''main.ts''], [''util.ts'']}),
      ignores = no_patterns,
      JSON_parse = (\<lambda>s. None),
      realpathSync = (\<lambda>p. p)\<rparr>"




text \<open>
  A project without an ignore file.
\<close>

definition project_no_gitignore :: env where
  "project_no_gitignore =
     \<lparr>readdirSync = (\<lambda>p. if p = [] then Some [''app.js''] else None),
      statSync = (\<lambda>p. Some False),
      readFileSync = (\<lambda>p. if p = [''app.js''] then Some ''import React from 'react';''
        else None),
      existsSync = (\<lambda>p. p \<in> {[], [''app.js'']}),
      ignores = no_patterns,
      JSON_parse = (\<lambda>s. None),
      realpathSync = (\<lambda>p. p)\<rparr>"

text \<open>
  \<^verbatim>\<open>a.ts\<close> imports the specifier \<^verbatim>\<open>b.ts\<close>, which is also the relative path of the
  next file of the directory.
\<close>

definition project_collision :: env where
  "project_collision =
     \<lparr>readdirSync = (\<lambda>p. if p = [] then Some [''.gitignore'', ''a.ts'', ''b.ts''] else None),
      statSync = (\<lambda>p. Some False),
      readFileSync = (\<lambda>p.
        if p = [''.gitignore''] then Some []
        else if p = [''a.ts''] then Some ''import x from 'b.ts';''
        else if p = [''b.ts''] then Some ''import y from 'c';''
        else None),
      existsSync = (\<lambda>p. p \<in> {[], [''.gitignore''], [''a.ts''], [''b.ts'']}),
      ignores = no_patterns,
      JSON_parse = (\<lambda>s. None),
      realpathSync = (\<lambda>p. p)\<rparr>"

text \<open>
  A project whose only source file has the extension \<^verbatim>\<open>.tsx\<close>.
\<close>

definition project_tsx :: env where
  "project_tsx =
     \<lparr>readdirSync = (\<lambda>p. if p = [] then Some [''.gitignore'', ''App.tsx''] else None),
      statSync = (\<lambda>p. Some False),
      readFileSync = (\<lambda>p.
        if p = [''.gitignore''] then Some []
        else if p = [''App.tsx''] then Some ''import React from 'react';''
        else None),
      existsSync = (\<lambda>p. p \<in> {[], [''.gitignore''], [''App.tsx'']}),
      ignores = no_patterns,
      JSON_parse = (\<lambda>s. None),
      realpathSync = (\<lambda>p. p)\<rparr>"

text \<open>
  A directory \<^verbatim>\<open>real\<close> and a symbolic link \<^verbatim>\<open>link\<close> to it: \<^verbatim>\<open>statSync\<close> follows
  the link, so both are directories, and both have the real path of \<^verbatim>\<open>real\<close>.
\<close>

definition project_link :: env where
  "project_link =
     \<lparr>readdirSync = (\<lambda>p. if p = [] then Some [''.gitignore'', ''link'', ''real'']
        else if p = [''link''] \<or> p = [''real''] then Some [] else None),
      statSync = (\<lambda>p. Some (p = [''link''] \<or> p = [''real''])),
      readFileSync = (\<lambda>p. if p = [''.gitignore''] then Some [] else None),
      existsSync = (\<lambda>p. p \<in> {[], [''.gitignore''], [''link''], [''real'']}),
      ignores = no_patterns,
      JSON_parse = (\<lambda>s. None),
      realpathSync = (\<lambda>p. if p = [''link''] then [''real''] else p)\<rparr>"

text \<open>
  A symbolic link \<^verbatim>\<open>loop\<close> in the root that points to the root, next to the ignore
  file, on a file system that follows at most 40 links when it resolves a path (as
  Linux does): every path \<^verbatim>\<open>loop/.../loop\<close> of up to 40 segments is the root
  directory, and a call of \<^verbatim>\<open>fs\<close> on a path through more links throws
  \<^verbatim>\<open>ELOOP\<close>.
\<close>

definition project_cycle :: env where
  "project_cycle =
     \<lparr>readdirSync = (\<lambda>p.
        if list_all (\<lambda>s. s = ''loop'') p \<and> length p \<le> 40
        then Some [''.gitignore'', ''loop''] else None),
      statSync = (\<lambda>p.
        if list_all (\<lambda>s. s = ''loop'') p
        then (if length p \<le> 40 then Some True else None)
        else if list_all (\<lambda>s. s = ''loop'') (butlast p) \<and> last p = ''.gitignore'' \<and>
                length p \<le> 41
        then Some False else None),
      readFileSync = (\<lambda>p.
        if p \<noteq> [] \<and> list_all (\<lambda>s. s = ''loop'') (butlast p) \<and> last p = ''.gitignore'' \<and>
           length p \<le> 41
        then Some [] else None),
      existsSync = (\<lambda>p.
        list_all (\<lambda>s. s = ''loop'') (butlast p) \<and>
        (p = [] \<or> last p = ''loop'' \<and> length p \<le> 40 \<or>
         last p = ''.gitignore'' \<and> length p \<le> 41)),
      ignores = no_patterns,
      JSON_parse = (\<lambda>s. None),
      realpathSync = (\<lambda>p. filter (\<lambda>s. s \<noteq> ''loop'') p)\<rparr>"

section \<open>Invariants of the graph under construction\<close>

lemma addNode_old:
  "nodeMap st i = Some a \<Longrightarrow> addNode i ty ext st = (a, st)"
  by (simp add: addNode_def)

lemma addNode_new:
  "nodeMap st i = None \<Longrightarrow>
   addNode i ty ext st =
     (length (heap st),
      st\<lparr>heap := heap st @ [\<lparr>id_node = i, imports = [], isExternal = ext, type = ty\<rparr>],
         nodeMap := (nodeMap st)(i \<mapsto> length (heap st)),
         nodes := nodes st @ [length (heap st)]\<rparr>)"
  by (simp add: addNode_def Let_def)

lemma addNode_links [simp]: "links (snd (addNode i ty ext st)) = links st"
  by (cases "nodeMap st i") (simp_all add: addNode_old addNode_new)

lemma addNode_calls [simp]: "calls (snd (addNode i ty ext st)) = calls st"
  by (cases "nodeMap st i") (simp_all add: addNode_old addNode_new)

lemma addNode_dom [simp]:
  "dom (nodeMap (snd (addNode i ty ext st))) = insert i (dom (nodeMap st))"
  by (cases "nodeMap st i") (auto simp: addNode_old addNode_new)

lemma addNode_heap:
  "heap (snd (addNode i ty ext st)) = heap st \<or>
   heap (snd (addNode i ty ext st)) =
     heap st @ [\<lparr>id_node = i, imports = [], isExternal = ext, type = ty\<rparr>]"
  by (cases "nodeMap st i") (simp_all add: addNode_old addNode_new)

lemma addNode_heap_inv:
  assumes "heap_inv st"
  shows "heap_inv (snd (addNode i ty ext st))"
proof (cases "nodeMap st i")
  case None
  have "\<forall>a<length (heap st). id_node (heap st ! a) \<noteq> i"
    using assms None by (auto simp: heap_inv_def)
  with assms None show ?thesis
    by (auto simp: addNode_new heap_inv_def nth_append less_Suc_eq)
next
  case (Some a)
  with assms show ?thesis by (simp add: addNode_old)
qed

lemma addNode_fst:
  assumes "heap_inv st"
  shows "fst (addNode i ty ext st) < length (heap (snd (addNode i ty ext st))) \<and>
         id_node (heap (snd (addNode i ty ext st)) ! fst (addNode i ty ext st)) = i \<and>
         nodeMap (snd (addNode i ty ext st)) i = Some (fst (addNode i ty ext st))"
proof (cases "nodeMap st i")
  case None
  then show ?thesis by (simp add: addNode_new)
next
  case (Some a)
  with assms show ?thesis by (simp add: addNode_old heap_inv_def)
qed

lemma addNode_links_inv:
  "links_inv st \<Longrightarrow> links_inv (snd (addNode i ty ext st))"
  by (auto simp: links_inv_def)

lemma addNode_kind_inv:
  "kind_inv st \<Longrightarrow> (ext \<longleftrightarrow> ty = Dependency) \<Longrightarrow> kind_inv (snd (addNode i ty ext st))"
  using addNode_heap [of i ty ext st] by (auto simp: kind_inv_def)

lemma addNode_imports_inv:
  "imports_inv st \<Longrightarrow> imports_inv (snd (addNode i ty ext st))"
  using addNode_heap [of i ty ext st] by (auto simp: imports_inv_def)

lemma set_imports_simps [simp]:
  "links (set_imports a imps st) = links st"
  "nodeMap (set_imports a imps st) = nodeMap st"
  "nodes (set_imports a imps st) = nodes st"
  "calls (set_imports a imps st) = calls st"
  "length (heap (set_imports a imps st)) = length (heap st)"
  by (simp_all add: set_imports_def)

lemma set_imports_id_node [simp]:
  "id_node (heap (set_imports a imps st) ! b) = id_node (heap st ! b)"
  by (cases "a < length (heap st)")
    (simp_all add: set_imports_def nth_list_update list_update_beyond)

lemma set_imports_heap_inv: "heap_inv st \<Longrightarrow> heap_inv (set_imports a imps st)"
  by (simp add: heap_inv_def)

lemma set_imports_links_inv: "links_inv st \<Longrightarrow> links_inv (set_imports a imps st)"
  by (simp add: links_inv_def)

lemma set_imports_heap_set:
  "n \<in> set (heap (set_imports a imps st)) \<Longrightarrow>
   n \<in> set (heap st) \<or> (a < length (heap st) \<and> n = (heap st ! a)\<lparr>imports := imps\<rparr>)"
  by (cases "a < length (heap st)")
    (auto simp: set_imports_def list_update_beyond
      dest: set_update_subset_insert [THEN subsetD])

lemma set_imports_kind_inv: "kind_inv st \<Longrightarrow> kind_inv (set_imports a imps st)"
  unfolding kind_inv_def
proof
  fix n
  assume inv: "\<forall>n\<in>set (heap st). isExternal n = (type n = Dependency)"
    and "n \<in> set (heap (set_imports a imps st))"
  from set_imports_heap_set [OF this(2)] inv
  show "isExternal n = (type n = Dependency)" by auto
qed

lemma push_link_simps [simp]:
  "links (push_link s t st) = links st @ [\<lparr>source = s, target = t\<rparr>]"
  "nodeMap (push_link s t st) = nodeMap st"
  "nodes (push_link s t st) = nodes st"
  "heap (push_link s t st) = heap st"
  "calls (push_link s t st) = calls st"
  by (simp_all add: push_link_def)

lemma add_import_heap_inv: "heap_inv st \<Longrightarrow> heap_inv (add_import rel imp st)"
  using addNode_heap_inv [of st imp Dependency True]
  by (simp add: add_import_def heap_inv_def)

lemma add_import_dom [simp]:
  "dom (nodeMap (add_import rel imp st)) = insert imp (dom (nodeMap st))"
  by (simp add: add_import_def)

lemma add_import_links [simp]:
  "links (add_import rel imp st) = links st @ [\<lparr>source = rel, target = imp\<rparr>]"
  by (simp add: add_import_def)

lemma add_import_calls [simp]: "calls (add_import rel imp st) = calls st"
  by (simp add: add_import_def)

lemma add_import_links_inv:
  "links_inv st \<Longrightarrow> rel \<in> dom (nodeMap st) \<Longrightarrow> links_inv (add_import rel imp st)"
  by (auto simp: links_inv_def)

lemma add_import_kind_inv: "kind_inv st \<Longrightarrow> kind_inv (add_import rel imp st)"
  using addNode_kind_inv [of st True Dependency imp]
  by (simp add: add_import_def kind_inv_def)

lemma add_import_heap:
  "\<exists>new. heap (add_import rel imp st) = heap st @ new \<and> (\<forall>n\<in>set new. imports n = [])"
  using addNode_heap [of imp Dependency True st]
  by (auto simp: add_import_def)

lemma fold_add_import_heap_inv:
  "heap_inv st \<Longrightarrow> heap_inv (fold (add_import rel) imps st)"
  by (induction imps arbitrary: st) (simp_all add: add_import_heap_inv)

lemma fold_add_import_dom [simp]:
  "dom (nodeMap (fold (add_import rel) imps st)) = set imps \<union> dom (nodeMap st)"
  by (induction imps arbitrary: st) auto

lemma fold_add_import_links [simp]:
  "links (fold (add_import rel) imps st) =
     links st @ map (\<lambda>imp. \<lparr>source = rel, target = imp\<rparr>) imps"
  by (induction imps arbitrary: st) auto

lemma fold_add_import_calls [simp]: "calls (fold (add_import rel) imps st) = calls st"
  by (induction imps arbitrary: st) auto

lemma fold_add_import_links_inv:
  "links_inv st \<Longrightarrow> rel \<in> dom (nodeMap st) \<Longrightarrow> links_inv (fold (add_import rel) imps st)"
  by (auto simp: links_inv_def)

lemma fold_add_import_kind_inv:
  "kind_inv st \<Longrightarrow> kind_inv (fold (add_import rel) imps st)"
  by (induction imps arbitrary: st) (simp_all add: add_import_kind_inv)

lemma fold_add_import_heap:
  "\<exists>new. heap (fold (add_import rel) imps st) = heap st @ new \<and> (\<forall>n\<in>set new. imports n = [])"
proof (induction imps arbitrary: st)
  case Nil
  show ?case by simp
next
  case (Cons imp imps)
  obtain new1 where 1: "heap (add_import rel imp st) = heap st @ new1"
    "\<forall>n\<in>set new1. imports n = []"
    using add_import_heap by blast
  obtain new2 where 2:
    "heap (fold (add_import rel) imps (add_import rel imp st)) = heap (add_import rel imp st) @ new2"
    "\<forall>n\<in>set new2. imports n = []"
    using Cons.IH by blast
  from 1 2 have "heap (fold (add_import rel) (imp # imps) st) = heap st @ (new1 @ new2)
      \<and> (\<forall>n\<in>set (new1 @ new2). imports n = [])"
    by auto
  then show ?case by blast
qed

lemma edges_append [simp]: "edges s t (xs @ ys) = edges s t xs + edges s t ys"
  by (simp add: edges_def)

lemma edges_map [simp]:
  "edges s t (map (\<lambda>imp. \<lparr>source = r, target = imp\<rparr>) imps) =
     (if s = r then count_list imps t else 0)"
  by (induction imps) (auto simp: edges_def)

lemma add_file_unfold:
  "add_file rel content st =
     fold (add_import rel) (parseImports content)
       (set_imports (fst (addNode rel File False st)) (parseImports content)
          (snd (addNode rel File False st)))"
  by (simp add: add_file_def Let_def split: prod.splits)

lemma add_file_heap_inv: "heap_inv st \<Longrightarrow> heap_inv (add_file rel content st)"
  by (simp add: add_file_unfold fold_add_import_heap_inv set_imports_heap_inv addNode_heap_inv)

lemma add_file_links_inv: "links_inv st \<Longrightarrow> links_inv (add_file rel content st)"
  by (simp add: add_file_unfold fold_add_import_links_inv set_imports_links_inv
      addNode_links_inv)

lemma add_file_kind_inv: "kind_inv st \<Longrightarrow> kind_inv (add_file rel content st)"
  by (simp add: add_file_unfold fold_add_import_kind_inv set_imports_kind_inv
      addNode_kind_inv)

lemma add_file_calls [simp]: "calls (add_file rel content st) = calls st"
  by (simp add: add_file_unfold)

lemma add_file_imports_inv:
  assumes "imports_inv st" and "heap_inv st"
  shows "imports_inv (add_file rel content st)"
  unfolding imports_inv_def
proof (intro ballI allI)
  fix n s
  let ?imps = "parseImports content"
  let ?a = "fst (addNode rel File False st)"
  let ?st1 = "snd (addNode rel File False st)"
  let ?st2 = "set_imports ?a ?imps ?st1"
  assume n: "n \<in> set (heap (add_file rel content st))"
  have links: "links (add_file rel content st) =
      links st @ map (\<lambda>imp. \<lparr>source = rel, target = imp\<rparr>) ?imps"
    by (simp add: add_file_unfold)
  obtain new where new: "heap (add_file rel content st) = heap ?st2 @ new"
    "\<forall>n\<in>set new. imports n = []"
    unfolding add_file_unfold using fold_add_import_heap by blast
  have inv1: "imports_inv ?st1" using assms(1) by (rule addNode_imports_inv)
  from n new consider "n \<in> set new" | "n \<in> set (heap ?st2)" by auto
  then show "count_list (imports n) s \<le> edges (id_node n) s (links (add_file rel content st))"
  proof cases
    case 1
    with new show ?thesis by simp
  next
    case 2
    from set_imports_heap_set [OF this]
    consider "n \<in> set (heap ?st1)"
      | "?a < length (heap ?st1)" "n = (heap ?st1 ! ?a)\<lparr>imports := ?imps\<rparr>" by blast
    then show ?thesis
    proof cases
      case 1
      with inv1 have "count_list (imports n) s \<le> edges (id_node n) s (links st)"
        by (simp add: imports_inv_def)
      then show ?thesis by (simp add: links)
    next
      case 2
      with addNode_fst [OF assms(2), of rel File False] have "id_node n = rel" by simp
      with 2 show ?thesis by (simp add: links)
    qed
  qed
qed

lemma traverse_preserves:
  assumes on_file: "\<And>rel content st. P st \<Longrightarrow> P (add_file rel content st)"
    and on_folder: "\<And>rel st. P st \<Longrightarrow> P (snd (addNode rel Folder False st))"
    and on_call: "\<And>d st. P st \<Longrightarrow> P (st\<lparr>calls := calls st @ [d]\<rparr>)"
  shows "traverseDirectory n e pat dir st = Some (Inr st') \<Longrightarrow> P st \<Longrightarrow> P st'"
    and "for_files n e pat dir fs st = Some (Inr st') \<Longrightarrow> P st \<Longrightarrow> P st'"
proof (induction n e pat dir st and n e pat dir fs st arbitrary: st' and st'
    rule: traverseDirectory_for_files.induct)
  case (1 e patterns dir st)
  then show ?case by simp
next
  case (2 n e patterns dir st)
  from "2.prems"(1) obtain files where "readdirSync e dir = Some files"
    and "for_files n e patterns dir files (st\<lparr>calls := calls st @ [dir]\<rparr>) = Some (Inr st')"
    by (auto split: option.splits)
  with "2.IH" on_call [OF "2.prems"(2)] show ?case by blast
next
  case (3 n e patterns dir st)
  then show ?case by simp
next
  case (4 n e patterns dir f fs st)
  let ?filePath = "dir @ [f]"
  let ?rel = "relative ?filePath"
  show ?case
  proof (cases "ignores e patterns ?rel \<or> f = ''node_modules''")
    case True
    with "4.prems" have "for_files n e patterns dir fs st = Some (Inr st')"
      by (simp add: Let_def)
    with "4.IH"(1) True "4.prems"(2) show ?thesis by blast
  next
    case False
    with "4.prems"(1) obtain isDir where stat: "statSync e ?filePath = Some isDir"
      by (auto simp: Let_def split: option.splits)
    show ?thesis
    proof (cases isDir)
      case True
      let ?st1 = "snd (addNode ?rel Folder False st)"
      from "4.prems"(1) False stat True obtain st2 where
        sub: "traverseDirectory n e patterns ?filePath ?st1 = Some (Inr st2)" and
        rest: "for_files n e patterns dir fs st2 = Some (Inr st')"
        by (auto simp: Let_def split: option.splits sum.splits)
      have "P ?st1" using "4.prems"(2) by (rule on_folder)
      with "4.IH"(2) False stat True sub have "P st2" by blast
      with "4.IH"(3) False stat True sub rest show ?thesis by blast
    next
      case notDir: False
      show ?thesis
      proof (cases "extname f = ''.ts'' \<or> extname f = ''.js''")
        case True
        with "4.prems"(1) False stat notDir obtain content where
          read: "readFileSync e ?filePath = Some content" and
          rest: "for_files n e patterns dir fs (add_file ?rel content st) = Some (Inr st')"
          by (auto simp: Let_def split: option.splits)
        have "P (add_file ?rel content st)" using "4.prems"(2) by (rule on_file)
        with "4.IH"(4) False stat notDir True read rest show ?thesis by blast
      next
        case noExt: False
        with "4.prems"(1) False stat notDir
        have "for_files n e patterns dir fs st = Some (Inr st')"
          by (auto simp: Let_def)
        with "4.IH"(5) False stat notDir noExt "4.prems"(2) show ?thesis by blast
      qed
    qed
  qed
qed

lemma graph_inv_init: "graph_inv init_state"
  by (simp add: graph_inv_def heap_inv_def links_inv_def kind_inv_def imports_inv_def
      init_state_def)

lemma graph_inv_addNode:
  "graph_inv st \<Longrightarrow> (ext \<longleftrightarrow> ty = Dependency) \<Longrightarrow> graph_inv (snd (addNode i ty ext st))"
  by (simp add: graph_inv_def addNode_heap_inv addNode_links_inv addNode_kind_inv
      addNode_imports_inv)

lemma graph_inv_add_file: "graph_inv st \<Longrightarrow> graph_inv (add_file rel content st)"
  by (simp add: graph_inv_def add_file_heap_inv add_file_links_inv add_file_kind_inv
      add_file_imports_inv)

lemma graph_inv_calls: "graph_inv st \<Longrightarrow> graph_inv (st\<lparr>calls := cs\<rparr>)"
  by (simp add: graph_inv_def heap_inv_def links_inv_def kind_inv_def imports_inv_def)

lemma traverseDirectory_graph_inv:
  "traverseDirectory n e pat dir st = Some (Inr st') \<Longrightarrow> graph_inv st \<Longrightarrow> graph_inv st'"
  by (rule traverse_preserves(1) [where P = graph_inv])
    (simp_all add: graph_inv_add_file graph_inv_addNode graph_inv_calls)

lemma fold_dependencies_graph_inv:
  "graph_inv st \<Longrightarrow> graph_inv (fold (\<lambda>dep s. snd (addNode dep Dependency True s)) deps st)"
  by (induction deps arbitrary: st) (simp_all add: graph_inv_addNode)

lemma fold_dependencies_links [simp]:
  "links (fold (\<lambda>dep s. snd (addNode dep Dependency True s)) deps st) = links st"
  by (induction deps arbitrary: st) simp_all


lemma add_dependencies_graph_inv:
  "add_dependencies e st = Inr st' \<Longrightarrow> graph_inv st \<Longrightarrow> graph_inv st'"
  unfolding add_dependencies_def Let_def
  by (simp split: if_splits option.splits sum.splits)
    (auto simp: fold_dependencies_graph_inv)

lemma build_state_graph_inv:
  assumes "build_state n e = Some (Inr st)"
  shows "graph_inv st"
proof -
  from assms obtain pat st0 where
    "traverseDirectory n e pat [] init_state = Some (Inr st0)" and
    "add_dependencies e st0 = Inr st"
    by (auto simp: build_state_def split: option.splits sum.splits)
  from traverseDirectory_graph_inv [OF this(1) graph_inv_init] this(2)
  show ?thesis by (rule add_dependencies_graph_inv [rotated])
qed

lemma heap_inv_nodes: "heap_inv st \<Longrightarrow> map (\<lambda>a. heap st ! a) (nodes st) = heap st"
  by (simp add: heap_inv_def map_nth)


lemma heap_inv_registered:
  assumes "heap_inv st" and "i \<in> dom (nodeMap st)"
  shows "i \<in> id_node ` set (heap st)"
proof -
  from assms(2) obtain a where "nodeMap st i = Some a" by blast
  with assms(1) have "a < length (heap st)" "id_node (heap st ! a) = i"
    by (auto simp: heap_inv_def)
  then have "heap st ! a \<in> set (heap st)" "id_node (heap st ! a) = i" by simp_all
  then show ?thesis by blast
qed

lemma connected_iff: "i \<in> connected ls \<longleftrightarrow> i \<in> source ` set ls \<or> i \<in> target ` set ls"
  by (auto simp: connected_def)

lemma remove_orphans_eq:
  "heap_inv st \<Longrightarrow>
   remove_orphans st = (filter (\<lambda>node. id_node node \<in> connected (links st)) (heap st), links st)"
  by (simp add: remove_orphans_def heap_inv_nodes connected_def)


lemma buildGraph_Some:
  assumes "buildGraph n (Some e) = Some (Inr (ns, ls))"
  obtains st where "build_state n e = Some (Inr st)" and "graph_inv st"
    and "ls = links st"
    and "ns = filter (\<lambda>node. id_node node \<in> connected (links st)) (heap st)"
proof -
  from assms obtain st where st: "build_state n e = Some (Inr st)"
    and r: "remove_orphans st = (ns, ls)"
    by (auto split: option.splits sum.splits)
  from st have inv: "graph_inv st" by (rule build_state_graph_inv)
  then have "heap_inv st" by (simp add: graph_inv_def)
  from remove_orphans_eq [OF this] r inv st that show ?thesis by simp
qed

section \<open>The trace of the traversal\<close>

lemma prefix_snoc_same:
  assumes "prefix (dir @ [f]) c" and "prefix (dir @ [g]) c"
  shows "f = g"
proof -
  from assms obtain r1 r2 where "c = dir @ [f] @ r1" "c = dir @ [g] @ r2"
    by (auto simp: prefix_def)
  then have "[f] @ r1 = [g] @ r2" by simp
  then show ?thesis by simp
qed

lemma prefix_snoc_below: "prefix (dir @ [f]) c \<Longrightarrow> prefix dir c \<and> c \<noteq> dir"
  by (auto simp: prefix_def)

lemma adds_under_refl: "adds_under e dir F st st"
  by (simp add: adds_under_def)

lemma adds_under_same:
  "calls st1 = calls st \<Longrightarrow> adds_under e dir F st1 st' \<Longrightarrow> adds_under e dir F st st'"
  by (simp add: adds_under_def)

lemma adds_below_same:
  "calls st1 = calls st \<Longrightarrow> adds_below e dir st1 st' \<Longrightarrow> adds_below e dir st st'"
  by (simp add: adds_below_def)

lemma adds_under_insert:
  assumes "adds_under e dir F st st'"
  shows "adds_under e dir (insert f F) st st'"
proof -
  from assms obtain cs where cs: "calls st' = calls st @ cs" "distinct cs"
    "\<forall>c\<in>set cs. \<exists>f\<in>F. prefix (dir @ [f]) c" "\<forall>c\<in>set cs. statSync e c = Some True"
    unfolding adds_under_def by blast
  from cs(3) have "\<forall>c\<in>set cs. \<exists>g\<in>insert f F. prefix (dir @ [g]) c" by blast
  with cs(1,2,4) show ?thesis unfolding adds_under_def by blast
qed

lemma adds_below_enter:
  assumes "adds_under e dir F (st\<lparr>calls := calls st @ [dir]\<rparr>) st'"
  shows "adds_below e dir st st'"
proof -
  from assms obtain cs where cs: "calls st' = (calls st @ [dir]) @ cs" "distinct cs"
    "\<forall>c\<in>set cs. \<exists>f\<in>F. prefix (dir @ [f]) c" "\<forall>c\<in>set cs. statSync e c = Some True"
    unfolding adds_under_def by auto
  have below: "prefix dir c \<and> c \<noteq> dir" if "c \<in> set cs" for c
  proof -
    from bspec [OF cs(3) that] obtain f where "prefix (dir @ [f]) c" ..
    then show ?thesis by (rule prefix_snoc_below)
  qed
  have "dir \<notin> set cs"
  proof
    assume "dir \<in> set cs"
    from below [OF this] show False by simp
  qed
  with cs(2) have 1: "distinct (dir # cs)" by simp
  from below have 2: "\<forall>c\<in>set (dir # cs). prefix dir c" by simp
  from cs(4) have 3: "\<forall>c\<in>set (dir # cs). c = dir \<or> statSync e c = Some True" by simp
  from cs(1) have "calls st' = calls st @ (dir # cs)" by simp
  with 1 2 3 show ?thesis unfolding adds_below_def by blast
qed

lemma adds_under_seq:
  assumes 1: "adds_below e (dir @ [f]) st st1"
    and 2: "adds_under e dir F st1 st2"
    and f: "f \<notin> F" "statSync e (dir @ [f]) = Some True"
  shows "adds_under e dir (insert f F) st st2"
proof -
  from 1 obtain cs1 where cs1: "calls st1 = calls st @ cs1" "distinct cs1"
    "\<forall>c\<in>set cs1. prefix (dir @ [f]) c"
    "\<forall>c\<in>set cs1. c = dir @ [f] \<or> statSync e c = Some True"
    unfolding adds_below_def by blast
  from 2 obtain cs2 where cs2: "calls st2 = calls st1 @ cs2" "distinct cs2"
    "\<forall>c\<in>set cs2. \<exists>g\<in>F. prefix (dir @ [g]) c"
    "\<forall>c\<in>set cs2. statSync e c = Some True"
    unfolding adds_under_def by blast
  have "c \<notin> set cs1" if "c \<in> set cs2" for c
  proof
    assume "c \<in> set cs1"
    with cs1(3) have pf: "prefix (dir @ [f]) c" by (rule bspec)
    from bspec [OF cs2(3) that] obtain g where g: "g \<in> F" "prefix (dir @ [g]) c" ..
    from pf g(2) have "f = g" by (rule prefix_snoc_same)
    with f(1) g(1) show False by simp
  qed
  then have "set cs1 \<inter> set cs2 = {}" by blast
  with cs1(2) cs2(2) have a: "distinct (cs1 @ cs2)" by simp
  from cs1(1) cs2(1) have b: "calls st2 = calls st @ (cs1 @ cs2)" by simp
  from cs1(3) cs2(3) have c: "\<forall>c\<in>set (cs1 @ cs2). \<exists>g\<in>insert f F. prefix (dir @ [g]) c"
    by auto
  from cs1(4) cs2(4) f(2) have d: "\<forall>c\<in>set (cs1 @ cs2). statSync e c = Some True"
    by auto
  from a b c d show ?thesis unfolding adds_under_def by blast
qed

lemma traverse_terminates:
  shows "no_directory_below e d \<Longrightarrow> distinct_listings e \<Longrightarrow> 0 < n \<Longrightarrow>
      n + length dir = Suc d \<Longrightarrow>
      \<exists>r. traverseDirectory n e pat dir st = Some r \<and>
        (\<forall>st'. r = Inr st' \<longrightarrow> adds_below e dir st st')"
    and "no_directory_below e d \<Longrightarrow> distinct_listings e \<Longrightarrow> n + length dir = d \<Longrightarrow>
      distinct fs \<Longrightarrow>
      \<exists>r. for_files n e pat dir fs st = Some r \<and>
        (\<forall>st'. r = Inr st' \<longrightarrow> adds_under e dir (set fs) st st')"
proof (induction n e pat dir st and n e pat dir fs st
    rule: traverseDirectory_for_files.induct)
  case (1 e patterns dir st)
  then show ?case by simp
next
  case (2 n e patterns dir st)
  show ?case
  proof (cases "readdirSync e dir")
    case None
    then show ?thesis by simp
  next
    case (Some files)
    from "2.prems"(2) Some have "distinct files" by (simp add: distinct_listings_def)
    moreover from "2.prems"(4) have "n + length dir = d" by simp
    ultimately obtain r where
      r: "for_files n e patterns dir files (st\<lparr>calls := calls st @ [dir]\<rparr>) = Some r" and
      a: "\<forall>st'. r = Inr st' \<longrightarrow>
            adds_under e dir (set files) (st\<lparr>calls := calls st @ [dir]\<rparr>) st'"
      using "2.IH" [OF Some "2.prems"(1,2)] by blast
    from a have "\<forall>st'. r = Inr st' \<longrightarrow> adds_below e dir st st'"
      using adds_below_enter by blast
    with r Some show ?thesis by simp
  qed
next
  case (3 n e patterns dir st)
  show ?case by (simp add: adds_under_refl)
next
  case (4 n e patterns dir f fs st)
  let ?filePath = "dir @ [f]"
  let ?rel = "relative ?filePath"
  note depth = "4.prems"(1) and listing = "4.prems"(2) and len = "4.prems"(3)
  from "4.prems"(4) have f: "f \<notin> set fs" and fs: "distinct fs" by simp_all
  have ins: "set (f # fs) = insert f (set fs)" by simp
  show ?case
  proof (cases "ignores e patterns ?rel \<or> f = ''node_modules''")
    case True
    from "4.IH"(1) [OF refl refl True depth listing len fs] obtain r where
      r: "for_files n e patterns dir fs st = Some r" and
      a: "\<forall>st'. r = Inr st' \<longrightarrow> adds_under e dir (set fs) st st'" by blast
    from a have "\<forall>st'. r = Inr st' \<longrightarrow> adds_under e dir (set (f # fs)) st st'"
      unfolding ins using adds_under_insert by blast
    moreover from True r have "for_files n e patterns dir (f # fs) st = Some r"
      by (simp add: Let_def)
    ultimately show ?thesis by blast
  next
    case False
    show ?thesis
    proof (cases "statSync e ?filePath")
      case None
      with False show ?thesis by (simp add: Let_def)
    next
      case (Some isDir)
      show ?thesis
      proof (cases isDir)
        case True
        let ?st1 = "snd (addNode ?rel Folder False st)"
        from depth Some True have "length dir \<noteq> d"
          by (auto simp: no_directory_below_def)
        with len have n: "0 < n" and len1: "n + length ?filePath = Suc d" by simp_all
        from "4.IH"(2) [OF refl refl False Some True depth listing n len1] obtain r1 where
          r1: "traverseDirectory n e patterns ?filePath ?st1 = Some r1" and
          a1: "\<forall>st'. r1 = Inr st' \<longrightarrow> adds_below e ?filePath ?st1 st'" by blast
        show ?thesis
        proof (cases r1)
          case (Inl err)
          with r1 False Some True show ?thesis by (simp add: Let_def)
        next
          case (Inr st2)
          with a1 have "adds_below e ?filePath ?st1 st2" by simp
          then have b1: "adds_below e ?filePath st st2"
            by (rule adds_below_same [rotated]) simp
          from "4.IH"(3) [OF refl refl False Some True _ Inr depth listing len fs] r1
          obtain r where
            r: "for_files n e patterns dir fs st2 = Some r" and
            a: "\<forall>st'. r = Inr st' \<longrightarrow> adds_under e dir (set fs) st2 st'" by blast
          from Some True have stat: "statSync e ?filePath = Some True" by simp
          have "\<forall>st'. r = Inr st' \<longrightarrow> adds_under e dir (set (f # fs)) st st'"
            unfolding ins using adds_under_seq [OF b1 _ f stat] a by blast
          moreover from r1 Inr r False Some True
          have "for_files n e patterns dir (f # fs) st = Some r"
            by (simp add: Let_def)
          ultimately show ?thesis by blast
        qed
      next
        case notDir: False
        show ?thesis
        proof (cases "extname f = ''.ts'' \<or> extname f = ''.js''")
          case True
          show ?thesis
          proof (cases "readFileSync e ?filePath")
            case None
            with False Some notDir True show ?thesis by (simp add: Let_def)
          next
            case content: (Some content)
            let ?st3 = "add_file ?rel content st"
            from "4.IH"(4) [OF refl refl False Some notDir True content depth listing len fs]
            obtain r where
              r: "for_files n e patterns dir fs ?st3 = Some r" and
              a: "\<forall>st'. r = Inr st' \<longrightarrow> adds_under e dir (set fs) ?st3 st'" by blast
            have "adds_under e dir (set (f # fs)) st st'" if "r = Inr st'" for st'
            proof -
              from a that have "adds_under e dir (set fs) ?st3 st'" by simp
              then have "adds_under e dir (set fs) st st'"
                by (rule adds_under_same [rotated]) simp
              then show ?thesis unfolding ins by (rule adds_under_insert)
            qed
            moreover from r False Some notDir True content
            have "for_files n e patterns dir (f # fs) st = Some r"
              by (simp add: Let_def)
            ultimately show ?thesis by blast
          qed
        next
          case noExt: False
          from "4.IH"(5) [OF refl refl False Some notDir noExt depth listing len fs]
          obtain r where
            r: "for_files n e patterns dir fs st = Some r" and
            a: "\<forall>st'. r = Inr st' \<longrightarrow> adds_under e dir (set fs) st st'" by blast
          from a have "\<forall>st'. r = Inr st' \<longrightarrow> adds_under e dir (set (f # fs)) st st'"
            unfolding ins using adds_under_insert by blast
          moreover from r False Some notDir noExt
          have "for_files n e patterns dir (f # fs) st = Some r"
            by (simp add: Let_def)
          ultimately show ?thesis by blast
        qed
      qed
    qed
  qed
qed

text \<open>
  On a tree with no directory below depth \<open>d\<close> and no repeated name in a listing,
  the traversal from the root returns with fuel \<open>d + 1\<close>, and so does the build; when
  it completes, it has entered no path twice.
\<close>

lemma bounded_tree_traversal:
  assumes "no_directory_below e d" and "distinct_listings e"
  shows "\<exists>r. traverseDirectory (Suc d) e pat [] init_state = Some r \<and>
           (\<forall>st. r = Inr st \<longrightarrow> distinct (calls st))"
    and "\<exists>g. buildGraph (Suc d) (Some e) = Some g"
proof -
  have total: "\<exists>r. traverseDirectory (Suc d) e pat [] init_state = Some r \<and>
      (\<forall>st'. r = Inr st' \<longrightarrow> adds_below e [] init_state st')" for pat
    using traverse_terminates(1) [OF assms, of "Suc d" "[]" pat init_state] by simp
  show "\<exists>g. buildGraph (Suc d) (Some e) = Some g"
  proof (cases "readFileSync e [''.gitignore'']")
    case None
    then show ?thesis by (simp add: build_state_def)
  next
    case (Some patterns)
    from total [of patterns] obtain r where
      "traverseDirectory (Suc d) e patterns [] init_state = Some r" by blast
    with Some show ?thesis
      by (cases r) (simp_all add: build_state_def split: sum.splits
          del: traverseDirectory.simps)
  qed
  from total [of pat] obtain r where r: "traverseDirectory (Suc d) e pat [] init_state = Some r"
    and a: "\<forall>st'. r = Inr st' \<longrightarrow> adds_below e [] init_state st'" by blast
  have "distinct (calls st)" if "r = Inr st" for st
  proof -
    from a that have "adds_below e [] init_state st" by simp
    then obtain cs where "calls st = calls init_state @ cs" "distinct cs"
      unfolding adds_below_def by auto
    then show ?thesis by (simp add: init_state_def)
  qed
  with r show "\<exists>r. traverseDirectory (Suc d) e pat [] init_state = Some r \<and>
           (\<forall>st. r = Inr st \<longrightarrow> distinct (calls st))" by blast
qed

section \<open>The traversal and the file system\<close>



lemma source_file_Nil [simp]: "\<not> source_file e pat [] content"
  by (simp add: source_file_def)



lemma listedD:
  "listed e pat dir f \<Longrightarrow>
     (\<exists>files. readdirSync e dir = Some files \<and> f \<in> set files) \<and>
     \<not> (ignores e pat (relative (dir @ [f])) \<or> f = ''node_modules'')"
  by (auto simp: listed_def split: option.splits)































section \<open>The returned graph\<close>




section \<open>The graphs of the example projects\<close>

text \<open>The definitions that the simplifier unfolds to run a build on a project.\<close>

lemmas eval_defs =
  build_state_def init_state_def add_file_def addNode_def parseImports_def
  importRegex_at_def is_space_def is_quote_def is_line_terminator_def extname_def
  set_imports_def add_import_def push_link_def add_dependencies_def remove_orphans_def

lemmas eval_all = eval_defs numeral_2_eq_2 Let_def no_patterns_def

lemma project_util_graph:
  "buildGraph 1 (Some project_util) =
     Some (Inr ([\<lparr>id_node = ''main.ts'', imports = [''./util'', ''./util''],
                   isExternal = False, type = File\<rparr>,
                 \<lparr>id_node = ''./util'', imports = [], isExternal = True, type = Dependency\<rparr>],
                [\<lparr>source = ''main.ts'', target = ''./util''\<rparr>,
                 \<lparr>source = ''main.ts'', target = ''./util''\<rparr>]))"
  by (simp add: project_util_def no_patterns_def eval_defs)



lemma extname_gitignore: "extname ''.gitignore'' = []"
  by (simp add: extname_def)






text \<open>
  On the cycle the root is entered again under \<^verbatim>\<open>loop\<close>, \<^verbatim>\<open>loop/loop\<close> and so on,
  until \<^verbatim>\<open>statSync\<close> throws on the path of 41 links: with fuel for more than 40
  nested calls the build ends with that exception and returns no graph.
\<close>

lemma all_loops: "list_all (\<lambda>s. s = x) (replicate k x)"
  by (simp add: list_all_iff)

lemma cycle_for_files:
  "k \<le> 40 \<Longrightarrow> 40 - k \<le> n \<Longrightarrow>
   for_files n project_cycle pat (replicate k ''loop'') [''.gitignore'', ''loop''] st =
     Some (Inl (StatError (replicate 41 ''loop'')))"
proof (induction "40 - k" arbitrary: k n st)
  case 0
  then have k: "k = 40" by simp
  have "replicate 40 ''loop'' @ [''loop''] = replicate 41 ''loop''"
    by (simp add: replicate_append_same eval_nat_numeral)
  then show ?case
    by (simp add: k project_cycle_def no_patterns_def Let_def extname_gitignore all_loops
        del: replicate_append_same)
next
  case (Suc j)
  then have k: "k < 40" by simp
  with Suc.prems(2) obtain n' where n: "n = Suc n'" by (cases n) auto
  from Suc.hyps(2) have j: "j = 40 - Suc k" by simp
  from k have k': "Suc k \<le> 40" by simp
  from Suc.prems(2) n k have n': "40 - Suc k \<le> n'" by simp
  have sub: "for_files n' project_cycle pat (replicate (Suc k) ''loop'')
      [''.gitignore'', ''loop''] st' = Some (Inl (StatError (replicate 41 ''loop'')))" for st'
    using Suc.hyps(1) [OF j k' n'] .
  have app: "replicate k ''loop'' @ [''loop''] = replicate (Suc k) ''loop''"
    by (simp add: replicate_append_same)
  have "traverseDirectory n project_cycle pat (replicate (Suc k) ''loop'') st' =
      Some (Inl (StatError (replicate 41 ''loop'')))" for st'
    using sub k' by (simp add: n project_cycle_def all_loops
        del: for_files.simps replicate.simps)
  with k show ?case
    by (simp add: app project_cycle_def no_patterns_def Let_def extname_gitignore all_loops
        del: traverseDirectory.simps replicate.simps replicate_append_same)
qed

lemma cycle_throws:
  assumes "40 < n"
  shows "buildGraph n (Some project_cycle) = Some (Inl (StatError (replicate 41 ''loop'')))"
proof -
  from assms obtain n' where n: "n = Suc n'" and n': "40 - 0 \<le> n'" by (cases n) auto
  from cycle_for_files [of 0 n' "[]"] n'
  have "for_files n' project_cycle [] [] [''.gitignore'', ''loop''] st =
      Some (Inl (StatError (replicate 41 ''loop'')))" for st
    by simp
  then show ?thesis
    by (simp add: n build_state_def project_cycle_def del: for_files.simps replicate.simps)
qed

section \<open>The claims\<close>

text \<open>
  Claim C1. Whenever \<^verbatim>\<open>buildGraph\<close> completes, every link of the returned graph has
  its source and its target among the ids of the returned (pruned) nodes.
\<close>

theorem no_dangling_edges:
  assumes "buildGraph n root = Some (Inr (ns, ls))"
  shows "\<forall>l\<in>set ls. source l \<in> id_node ` set ns \<and> target l \<in> id_node ` set ns"
proof (cases root)
  case None
  with assms show ?thesis by simp
next
  case (Some e)
  with assms have "buildGraph n (Some e) = Some (Inr (ns, ls))" by simp
  then obtain st where inv: "graph_inv st" and ls: "ls = links st"
    and ns: "ns = filter (\<lambda>node. id_node node \<in> connected (links st)) (heap st)"
    by (rule buildGraph_Some)
  show ?thesis
  proof
    fix l
    assume l: "l \<in> set ls"
    have "i \<in> id_node ` set ns" if "i \<in> dom (nodeMap st)" "i \<in> connected (links st)" for i
    proof -
      from inv that(1) have "i \<in> id_node ` set (heap st)"
        by (simp add: graph_inv_def heap_inv_registered)
      with that(2) show ?thesis by (auto simp: ns)
    qed
    moreover from inv l have "source l \<in> dom (nodeMap st)" "target l \<in> dom (nodeMap st)"
      by (auto simp: graph_inv_def links_inv_def ls)
    moreover from l have "source l \<in> connected (links st)" "target l \<in> connected (links st)"
      by (auto simp: connected_iff ls)
    ultimately show "source l \<in> id_node ` set ns \<and> target l \<in> id_node ` set ns"
      by blast
  qed
qed

text \<open>
  Claim C1, at the project with two imports of \<^verbatim>\<open>./util\<close>.
\<close>

theorem no_dangling_edges_witness:
  "buildGraph 1 (Some project_util) =
     Some (Inr ([\<lparr>id_node = ''main.ts'', imports = [''./util'', ''./util''],
                   isExternal = False, type = File\<rparr>,
                 \<lparr>id_node = ''./util'', imports = [], isExternal = True, type = Dependency\<rparr>],
                [\<lparr>source = ''main.ts'', target = ''./util''\<rparr>,
                 \<lparr>source = ''main.ts'', target = ''./util''\<rparr>])) \<and>
   source ` set [\<lparr>source = ''main.ts'', target = ''./util''\<rparr>,
                 \<lparr>source = ''main.ts'', target = ''./util''\<rparr>]
     \<subseteq> id_node ` set [\<lparr>id_node = ''main.ts'', imports = [''./util'', ''./util''],
                   isExternal = False, type = File\<rparr>,
                 \<lparr>id_node = ''./util'', imports = [], isExternal = True, type = Dependency\<rparr>] \<and>
   target ` set [\<lparr>source = ''main.ts'', target = ''./util''\<rparr>,
                 \<lparr>source = ''main.ts'', target = ''./util''\<rparr>]
     \<subseteq> id_node ` set [\<lparr>id_node = ''main.ts'', imports = [''./util'', ''./util''],
                   isExternal = False, type = File\<rparr>,
                 \<lparr>id_node = ''./util'', imports = [], isExternal = True, type = Dependency\<rparr>]"
  using no_dangling_edges [OF project_util_graph] project_util_graph by blast

text \<open>
  Claim C2 says that the traversal ends on every tree, one with a cycle of symbolic
  links included, and enters no real directory twice. \<^verbatim>\<open>traverseDirectory\<close> keeps no
  set of visited paths and asks \<^verbatim>\<open>fs.statSync\<close>, which follows symbolic links, whether
  an entry is a directory: a directory and a link to it are both entered, and they are
  the same real directory. (On a cycle the root is entered again and again until the
  build throws: \<open>cycle_throws\<close>.) The traversal of \<^verbatim>\<open>src/fileParser.ts\<close> lists a
  directory with \<^verbatim>\<open>withFileTypes\<close> and recurses where \<^verbatim>\<open>entry.isDirectory()\<close> holds,
  which it does not for a link, so it follows no link.
\<close>

theorem symlink_visited_twice:
  "real_directories project_link (traverseDirectory 2 project_link [] [] init_state) =
     [[], [''real''], [''real'']]"
  by (simp add: real_directories_def project_link_def eval_all)

text \<open>
  Claim C3 says that a root without an ignore file is built with no patterns. In
  \<^verbatim>\<open>buildGraph\<close> the file is read with no test that it exists, so the build throws;
  \<^verbatim>\<open>buildFileGraph\<close> of \<^verbatim>\<open>src/fileParser.ts\<close> does test \<^verbatim>\<open>fs.existsSync\<close> first, as
  \<^verbatim>\<open>buildGraph\<close> itself does for the manifest.
\<close>

theorem missing_gitignore_throws:
  "buildGraph 1 (Some project_no_gitignore) = Some (Inl (ReadFileError [''.gitignore'']))"
  by (simp add: project_no_gitignore_def eval_all)




text \<open>
  Claim C5 says that only file nodes carry imports. The file branch writes
  \<^verbatim>\<open>node.imports\<close> on whatever \<^verbatim>\<open>addNode(relativePath, 'file')\<close> returns; when an earlier
  import has registered the relative path as a dependency, that node is returned, and
  the returned graph has a dependency node with a non-empty import list.
\<close>

theorem imports_on_dependency_node:
  "buildGraph 1 (Some project_collision) =
     Some (Inr ([\<lparr>id_node = ''a.ts'', imports = [''b.ts''], isExternal = False, type = File\<rparr>,
                 \<lparr>id_node = ''b.ts'', imports = [''c''], isExternal = True,
                   type = Dependency\<rparr>,
                 \<lparr>id_node = ''c'', imports = [], isExternal = True, type = Dependency\<rparr>],
                [\<lparr>source = ''a.ts'', target = ''b.ts''\<rparr>,
                 \<lparr>source = ''b.ts'', target = ''c''\<rparr>]))"
  by (simp add: project_collision_def eval_all)

text \<open>
  Claim C6. \<^verbatim>\<open>addNode\<close> on an id that is already registered returns the existing node
  and changes nothing: not the node set, and not the kind or the \<^verbatim>\<open>isExternal\<close> flag of
  the existing node, whatever kind and flag the second call passes.
\<close>

theorem addNode_first_writer_wins:
  assumes "nodeMap st i = Some a"
  shows "addNode i ty ext st = (a, st) \<and>
         addNode i ty' ext' (snd (addNode i ty ext st)) = addNode i ty ext st"
proof -
  from assms have "addNode i ty ext st = (a, st)"
    and "addNode i ty' ext' st = (a, st)"
    by (simp_all add: addNode_def)
  then show ?thesis by simp
qed

text \<open>
  Claim C6, at a path registered as a file and then again as a dependency.
\<close>

theorem addNode_first_writer_wins_witness:
  "nodeMap (snd (addNode ''src/a.ts'' File False init_state)) ''src/a.ts'' = Some 0 \<and>
   addNode ''src/a.ts'' Dependency True (snd (addNode ''src/a.ts'' File False init_state)) =
     (0, snd (addNode ''src/a.ts'' File False init_state)) \<and>
   type (heap (snd (addNode ''src/a.ts'' Dependency True
     (snd (addNode ''src/a.ts'' File False init_state)))) ! 0) = File"
proof -
  have h: "nodeMap (snd (addNode ''src/a.ts'' File False init_state)) ''src/a.ts'' = Some 0"
    by (simp add: addNode_def init_state_def)
  from addNode_first_writer_wins [OF h, of Dependency True] h show ?thesis
    by (simp add: addNode_new init_state_def)
qed







text \<open>
  Claim C9 says that files with the extensions \<^verbatim>\<open>.js\<close>, \<^verbatim>\<open>.ts\<close>, \<^verbatim>\<open>.jsx\<close> and
  \<^verbatim>\<open>.tsx\<close> are read. \<^verbatim>\<open>traverseDirectory\<close> tests \<^verbatim>\<open>path.extname\<close> against \<^verbatim>\<open>.ts\<close>
  and \<^verbatim>\<open>.js\<close> only, so a \<^verbatim>\<open>.tsx\<close> file with an import leaves the graph empty.
\<close>

theorem tsx_file_skipped:
  "buildGraph 1 (Some project_tsx) = Some (Inr ([], []))"
  by (simp add: project_tsx_def eval_all)

text \<open>
  Claim C10 says that the extractor returns the specifiers of the static import
  declarations and nothing from comments. The regular expression of \<^verbatim>\<open>parseImports\<close>
  reads an import in a line comment, and misses the static import that has no
  \<^verbatim>\<open>from\<close>.
\<close>

theorem regex_reads_comments:
  "parseImports ''// import a from 'b' '' = [''b''] \<and>
   parseImports ''import 'side-effect';'' = []"
  by (simp add: eval_all)

end
